theory Spec2Isabelle
  imports Main "HOL-Library.Word"
begin

unbundle bit_operations_syntax

section \<open>Data model\<close>

text \<open>
  A Go \<open>byte\<close> is an unsigned 8-bit integer. A Go \<open>string\<close> is an immutable sequence of
  bytes and is modelled by a HOL \<open>string\<close> (a list of 8-bit characters); \<open>string(bs)\<close> and
  \<open>s[i]\<close> convert between the two views.
\<close>

type_synonym byte = "8 word"

definition byte_of_char :: "char \<Rightarrow> byte" where
  "byte_of_char c = of_nat (of_char c)"

definition char_of_byte :: "byte \<Rightarrow> char" where
  "char_of_byte b = char_of (unat b)"

definition string_of_bytes :: "byte list \<Rightarrow> string" where
  "string_of_bytes bs = map char_of_byte bs"

text \<open>
  The run-time panics of the program: a slice expression or an index expression out of
  range, and \<open>log.Panicln\<close>, which logs its argument and panics. Nothing in \<open>main.go\<close>
  recovers from a panic, so each one ends the run.
\<close>

datatype panic = SliceBoundsOutOfRange | IndexOutOfRange | LogPanic string

text \<open>
  A Go slice \<open>[]byte\<close> is a window onto a backing array: \<open>len\<close> elements are visible,
  and the array may extend further, up to \<open>cap\<close>. A slice expression \<open>s[lo:hi]\<close> on a
  slice is checked against the capacity, not the length (\<open>0 \<le> lo \<le> hi \<le> cap(s)\<close>), and
  \<open>append\<close> writes into the spare part of the array when there is room. The record keeps
  the visible elements and the spare part of the backing array apart, so every value of
  the type is a well-formed slice.
\<close>

record slice =
  elems :: "byte list"
  spare :: "byte list"

definition len :: "slice \<Rightarrow> nat" where
  "len s = length (elems s)"

definition cap :: "slice \<Rightarrow> nat" where
  "cap s = length (elems s) + length (spare s)"

definition backing :: "slice \<Rightarrow> byte list" where
  "backing s = elems s @ spare s"

text \<open>The slice expression \<open>s[lo:hi]\<close>; only the bytes it denotes are used by the program.\<close>

definition slice_expr :: "slice \<Rightarrow> nat \<Rightarrow> nat \<Rightarrow> panic + byte list" where
  "slice_expr s lo hi =
     (if lo \<le> hi \<and> hi \<le> cap s then Inr (take (hi - lo) (drop lo (backing s)))
      else Inl SliceBoundsOutOfRange)"

text \<open>
  \<open>append(s, b)\<close>. With spare capacity the byte is stored in place. Without, a new array
  is allocated; how large is the run-time's choice (\<open>growslice\<close>, not part of the
  repository), so the new capacity is a parameter: \<open>growslice oldCap newLen\<close>, never
  taken to be less than the new length. New memory is zeroed.
\<close>

definition append_byte :: "(nat \<Rightarrow> nat \<Rightarrow> nat) \<Rightarrow> slice \<Rightarrow> byte \<Rightarrow> slice" where
  "append_byte growslice s b =
     (case spare s of
        _ # sp \<Rightarrow> \<lparr>elems = elems s @ [b], spare = sp\<rparr>
      | [] \<Rightarrow> \<lparr>elems = elems s @ [b],
                spare = replicate (growslice (cap s) (len s + 1) - (len s + 1)) 0\<rparr>)"

text \<open>The index expression \<open>s[i]\<close> on a string.\<close>

definition index_str :: "string \<Rightarrow> nat \<Rightarrow> panic + byte" where
  "index_str s i = (if i < length s then Inr (byte_of_char (s ! i)) else Inl IndexOutOfRange)"

text \<open>The assignment \<open>xs[i] = v\<close> on a slice of strings.\<close>

definition set_index :: "string list \<Rightarrow> nat \<Rightarrow> string \<Rightarrow> panic + string list" where
  "set_index xs i v = (if i < length xs then Inr (xs[i := v]) else Inl IndexOutOfRange)"

text \<open>Sequencing of computations that may panic.\<close>

definition bindP :: "panic + 'a \<Rightarrow> ('a \<Rightarrow> panic + 'b) \<Rightarrow> panic + 'b" where
  "bindP m f = (case m of Inl e \<Rightarrow> Inl e | Inr x \<Rightarrow> f x)"

section \<open>Standard library functions used by the program\<close>

text \<open>\<open>hex.EncodeToString\<close>: two lower-case hexadecimal digits per byte.\<close>

definition hextable :: string where
  "hextable = ''0123456789abcdef''"

definition EncodeToString :: "byte list \<Rightarrow> string" where
  "EncodeToString src =
     concat (map (\<lambda>v. [hextable ! unat (drop_bit 4 v), hextable ! unat (v AND 0x0f)]) src)"

text \<open>
  \<open>hex.DecodeString\<close>: decodes pairs of hexadecimal digits (either case); at the first
  invalid character, or at an odd length, it returns the bytes decoded before the error
  together with the error.
\<close>

datatype hex_error = InvalidByteError char | ErrLength

definition fromHexChar :: "char \<Rightarrow> byte option" where
  "fromHexChar c =
     (let n = (of_char c :: nat) in
      if 48 \<le> n \<and> n \<le> 57 then Some (of_nat (n - 48))
      else if 97 \<le> n \<and> n \<le> 102 then Some (of_nat (n - 97 + 10))
      else if 65 \<le> n \<and> n \<le> 70 then Some (of_nat (n - 65 + 10))
      else None)"

fun DecodeString :: "string \<Rightarrow> byte list \<times> hex_error option" where
  "DecodeString [] = ([], None)"
| "DecodeString [p] =
     (case fromHexChar p of None \<Rightarrow> ([], Some (InvalidByteError p))
      | Some _ \<Rightarrow> ([], Some ErrLength))"
| "DecodeString (p # q # src) =
     (case fromHexChar p of None \<Rightarrow> ([], Some (InvalidByteError p))
      | Some a \<Rightarrow>
          (case fromHexChar q of None \<Rightarrow> ([], Some (InvalidByteError q))
           | Some b \<Rightarrow>
               (case DecodeString src of (dst, err) \<Rightarrow> ((push_bit 4 a OR b) # dst, err))))"

text \<open>
  \<open>strings.ToUpper\<close> on the bytes \<open>a\<close> to \<open>z\<close>; the program applies it to the output of
  \<open>hex.EncodeToString\<close> only, which is ASCII.
\<close>

definition upper_char :: "char \<Rightarrow> char" where
  "upper_char c =
     (let n = (of_char c :: nat) in if 97 \<le> n \<and> n \<le> 122 then char_of (n - 32) else c)"

definition ToUpper :: "string \<Rightarrow> string" where
  "ToUpper s = map upper_char s"

text \<open>\<open>strings.Join\<close>.\<close>

fun Join :: "string list \<Rightarrow> string \<Rightarrow> string" where
  "Join [] sep = []"
| "Join [x] sep = x"
| "Join (x # y # xs) sep = x @ sep @ Join (y # xs) sep"

text \<open>
  \<open>strings.ReplaceAll s old new\<close> for a non-empty \<open>old\<close>: the non-overlapping
  occurrences of \<open>old\<close> are replaced from left to right. For an empty \<open>old\<close> Go inserts
  \<open>new\<close> before every character and at the end; the model does so byte by byte, which
  is Go's behaviour on ASCII text.
\<close>

fun replace_nonempty :: "string \<Rightarrow> nat \<Rightarrow> string \<Rightarrow> string \<Rightarrow> string" where
  "replace_nonempty old skip new [] = []"
| "replace_nonempty old skip new (c # s) =
     (if 0 < skip then replace_nonempty old (skip - 1) new s
      else if take (length old) (c # s) = old
      then new @ replace_nonempty old (length old - 1) new s
      else c # replace_nonempty old 0 new s)"

definition ReplaceAll :: "string \<Rightarrow> string \<Rightarrow> string \<Rightarrow> string" where
  "ReplaceAll s old new =
     (if old = new then s
      else if old = [] then new @ concat (map (\<lambda>c. c # new) s)
      else replace_nonempty old 0 new s)"

text \<open>\<open>strconv.FormatInt(i, 10)\<close>.\<close>

definition digit_char :: "nat \<Rightarrow> char" where
  "digit_char d = ''0123456789'' ! d"

fun format_nat :: "nat \<Rightarrow> string" where
  "format_nat n = (if n < 10 then [digit_char n] else format_nat (n div 10) @ [digit_char (n mod 10)])"

declare format_nat.simps [simp del]

definition FormatInt :: "int \<Rightarrow> string" where
  "FormatInt i = (if i < 0 then CHR ''-'' # format_nat (nat (- i)) else format_nat (nat i))"

section \<open>The program\<close>

definition Ntag215PageQuantity :: nat where
  "Ntag215PageQuantity = 135"

subsection \<open>extractUid\<close>

definition extractUid :: "slice \<Rightarrow> panic + string" where
  "extractUid fileContent =
     bindP (slice_expr fileContent 0 3) (\<lambda>first3.
     bindP (slice_expr fileContent 4 8) (\<lambda>next4.
       let uidBytes = first3 @ next4;
           strUid = map (\<lambda>b. ToUpper (EncodeToString [b])) uidBytes
       in Inr (Join strUid '' '')))"

subsection \<open>calculatePassword\<close>

definition calculatePassword :: "string \<Rightarrow> panic + string" where
  "calculatePassword rawUid =
     bindP (index_str rawUid 1) (\<lambda>u1. bindP (index_str rawUid 3) (\<lambda>u3.
     bindP (index_str rawUid 2) (\<lambda>u2. bindP (index_str rawUid 4) (\<lambda>u4.
     bindP (index_str rawUid 3) (\<lambda>u3'. bindP (index_str rawUid 5) (\<lambda>u5.
     bindP (index_str rawUid 4) (\<lambda>u4'. bindP (index_str rawUid 6) (\<lambda>u6.
       let password = [EncodeToString [u1 XOR u3 XOR 0xAA],
                       EncodeToString [u2 XOR u4 XOR 0x55],
                       EncodeToString [u3' XOR u5 XOR 0xAA],
                       EncodeToString [u4' XOR u6 XOR 0x55]]
       in Inr (Join password '' '')))))))))"

subsection \<open>convertBinDataToNfcPages\<close>

text \<open>
  The first loop pads the slice with zero bytes until its length is a multiple of 4.
\<close>

function pad_loop :: "(nat \<Rightarrow> nat \<Rightarrow> nat) \<Rightarrow> slice \<Rightarrow> slice" where
  "pad_loop growslice fileContent =
     (if len fileContent mod 4 \<noteq> 0
      then pad_loop growslice (append_byte growslice fileContent 0)
      else fileContent)"
  by pat_completeness auto
termination
  by (relation "measure (\<lambda>(g, s). (4 - len s mod 4) mod 4)")
     (auto simp: len_def append_byte_def mod_Suc split: list.splits)

text \<open>
  The inner loop \<open>for j := 0; j < 4; j++\<close> appends the four bytes of a page to its line,
  each read through the slice expression \<open>fileContent[i+j:i+j+1]\<close>.
\<close>

function page_bytes :: "slice \<Rightarrow> nat \<Rightarrow> nat \<Rightarrow> string \<Rightarrow> panic + string" where
  "page_bytes fileContent i j page =
     (if j < 4
      then bindP (slice_expr fileContent (i + j) (i + j + 1)) (\<lambda>b.
             page_bytes fileContent i (j + 1) (page @ '' '' @ ToUpper (EncodeToString b)))
      else Inr page)"
  by pat_completeness auto
termination
  by (relation "measure (\<lambda>(s, i, j, p). 4 - j)") auto

text \<open>
  The outer loop \<open>for i := 0; i < len(fileContent); i += 4\<close>, with its \<open>break\<close> once
  \<open>Ntag215PageQuantity\<close> pages have been collected.
\<close>

function page_loop ::
  "slice \<Rightarrow> nat \<Rightarrow> string list \<Rightarrow> nat \<Rightarrow> panic + (string list \<times> nat)" where
  "page_loop fileContent i pagesContent pageCount =
     (if i < len fileContent
      then bindP (page_bytes fileContent i 0 (''Page '' @ FormatInt (int pageCount) @ '':''))
             (\<lambda>page.
               if pageCount + 1 \<ge> Ntag215PageQuantity
               then Inr (pagesContent @ [page], pageCount + 1)
               else page_loop fileContent (i + 4) (pagesContent @ [page]) (pageCount + 1))
      else Inr (pagesContent, pageCount))"
  by pat_completeness auto
termination
  by (relation "measure (\<lambda>(s, i, ps, n). len s - i)") auto

text \<open>The loop that appends all-zero pages while fewer than 135 are present.\<close>

function zero_loop :: "string list \<Rightarrow> nat \<Rightarrow> string list \<times> nat" where
  "zero_loop pagesContent pageCount =
     (if pageCount < Ntag215PageQuantity
      then zero_loop (pagesContent @ [''Page '' @ FormatInt (int pageCount) @ '': 00 00 00 00''])
             (pageCount + 1)
      else (pagesContent, pageCount))"
  by pat_completeness auto
termination
  by (relation "measure (\<lambda>(ps, n). Ntag215PageQuantity - n)") auto

declare pad_loop.simps [simp del] page_bytes.simps [simp del]
  page_loop.simps [simp del] zero_loop.simps [simp del]

definition convertBinDataToNfcPages :: "(nat \<Rightarrow> nat \<Rightarrow> nat) \<Rightarrow> slice \<Rightarrow> panic + string" where
  "convertBinDataToNfcPages growslice fileContent0 =
     (let fileContent = pad_loop growslice fileContent0 in
      bindP (page_loop fileContent 0 [] 0) (\<lambda>(pagesContent, pageCount).
        case zero_loop pagesContent pageCount of (pagesContent, pageCount) \<Rightarrow>
        bindP (extractUid fileContent) (\<lambda>uidStr.
          let uid = fst (DecodeString (ReplaceAll uidStr '' '' '''')) in
          bindP (calculatePassword (string_of_bytes uid)) (\<lambda>password.
          bindP (set_index pagesContent 133 (''Page 133: '' @ ToUpper password)) (\<lambda>pagesContent.
          bindP (set_index pagesContent 134 ''Page 134: 80 80 00 00'') (\<lambda>pagesContent.
            Inr (Join pagesContent ''\<newline>'')))))))"

subsection \<open>createNfcFileContent\<close>

text \<open>
  \<open>fmt.Sprintf\<close> with the format of the source: \<open>%s\<close> is replaced by the UID, \<open>%d\<close> by
  \<open>Ntag215PageQuantity\<close> in decimal and the last \<open>%s\<close> by the pages.
\<close>

definition createNfcFileContent :: "string \<Rightarrow> string \<Rightarrow> string" where
  "createNfcFileContent uid pages =
     ''Filetype: Flipper NFC device\<newline>'' @
     ''Version: 2\<newline>'' @
     ''# Nfc device type can be UID, Mifare Ultralight, Bank card\<newline>'' @
     ''Device type: NTAG215\<newline>'' @
     ''# UID, ATQA and SAK are common for all formats\<newline>'' @
     ''UID: '' @ uid @ ''\<newline>'' @
     ''ATQA: 44 00\<newline>'' @
     ''SAK: 00\<newline>'' @
     ''# Mifare Ultralight specific data\<newline>'' @
     ''Signature: 00 00 00 00 00 00 00 00 00 00 00 00 00 00 00 00 00 00 00 00 00 00 00 00 00 00 00 00 00 00 00 00\<newline>'' @
     ''Mifare version: 00 04 04 02 01 00 11 03\<newline>'' @
     ''Counter 0: 0\<newline>'' @
     ''Tearing 0: 00\<newline>'' @
     ''Counter 1: 0\<newline>'' @
     ''Tearing 1: 00\<newline>'' @
     ''Counter 2: 0\<newline>'' @
     ''Tearing 2: 00\<newline>'' @
     ''Pages total: '' @ FormatInt (int Ntag215PageQuantity) @ ''\<newline>'' @
     pages"

subsection \<open>Files and the loop of main\<close>

text \<open>
  The file system and the two output streams, as far as \<open>main\<close> uses them:
  \<open>readable\<close> gives the slice that \<open>os.ReadFile\<close> returns for a path, with whatever
  capacity the library left in its buffer, or \<open>None\<close> when it fails; \<open>writable\<close> tells whether \<open>os.WriteFile\<close> to a path succeeds; \<open>written\<close>,
  \<open>log_out\<close> and \<open>std_out\<close> record what the run has written, logged and printed so far.
  An output path contains no \<open>.bin\<close> while every input path ends in it, so writing an
  output never changes an input. The result of \<open>os.MkdirAll\<close> is dropped by the program;
  its effect is part of \<open>writable\<close>.
\<close>

record world =
  readable :: "string \<Rightarrow> slice option"
  writable :: "string \<Rightarrow> bool"
  written :: "(string \<times> string) list"
  log_out :: "string list"
  std_out :: "string list"

definition loadBinFile :: "world \<Rightarrow> string \<Rightarrow> slice \<times> string option" where
  "loadBinFile w filename =
     (case readable w filename of
        None \<Rightarrow> (\<lparr>elems = [], spare = []\<rparr>, Some ''error when loading file, check filename'')
      | Some fileContent \<Rightarrow> (fileContent, None))"

definition saveNfcFile :: "world \<Rightarrow> string \<Rightarrow> string \<Rightarrow> world \<times> string option" where
  "saveNfcFile w filename content =
     (if writable w filename
      then (w\<lparr>written := written w @ [(filename, content)]\<rparr>, None)
      else (w, Some ''error when write nfc file''))"

text \<open>
  The body of \<open>main\<close> after the flags are parsed and the files listed: the list of files,
  the two directories and the world are its inputs. A panic ends the run; the world at
  that moment is returned with it.
\<close>

fun main_loop ::
  "(nat \<Rightarrow> nat \<Rightarrow> nat) \<Rightarrow> string \<Rightarrow> string \<Rightarrow> world \<Rightarrow> string list \<Rightarrow> (panic \<times> world) + world" where
  "main_loop growslice inputDir outputDir w [] = Inr w"
| "main_loop growslice inputDir outputDir w (file # filesToConvert) =
     (case loadBinFile w file of
        (fileContent, Some err) \<Rightarrow> Inl (LogPanic err, w\<lparr>log_out := log_out w @ [err]\<rparr>)
      | (fileContent, None) \<Rightarrow>
          (case extractUid fileContent of
             Inl p \<Rightarrow> Inl (p, w)
           | Inr uid \<Rightarrow>
               (case convertBinDataToNfcPages growslice fileContent of
                  Inl p \<Rightarrow> Inl (p, w)
                | Inr pages \<Rightarrow>
                    (let nfcContent = createNfcFileContent uid pages;
                         w1 = w\<lparr>std_out := std_out w @ [''Proccess file:  '' @ file]\<rparr>;
                         outputPath = ReplaceAll file inputDir outputDir;
                         outputPath = ReplaceAll outputPath ''.bin'' ''.nfc''
                     in case saveNfcFile w1 outputPath nfcContent of
                          (w2, Some err) \<Rightarrow>
                            main_loop growslice inputDir outputDir
                              (w2\<lparr>log_out := log_out w2 @ [''Error when save NfcFile  '' @ err]\<rparr>)
                              filesToConvert
                        | (w2, None) \<Rightarrow>
                            main_loop growslice inputDir outputDir w2 filesToConvert))))"

section \<open>Notions used to state the properties\<close>

text \<open>
  A byte written as two hexadecimal digits taken from a table of sixteen digits; the
  upper-case table is the rendering of the output format, the lower-case one is what
  \<open>hex.EncodeToString\<close> produces.
\<close>

definition hex_pair :: "string \<Rightarrow> byte \<Rightarrow> string" where
  "hex_pair digits b = [digits ! (unat b div 16), digits ! (unat b mod 16)]"

definition hex_upper :: "byte \<Rightarrow> string" where
  "hex_upper b = hex_pair ''0123456789ABCDEF'' b"

definition hex_lower :: "byte \<Rightarrow> string" where
  "hex_lower b = hex_pair ''0123456789abcdef'' b"

text \<open>
  The seven UID bytes of a buffer: the bytes at the indices 0, 1, 2 and 4, 5, 6, 7.
\<close>

definition uid_of :: "byte list \<Rightarrow> byte list" where
  "uid_of bs = [bs ! 0, bs ! 1, bs ! 2, bs ! 4, bs ! 5, bs ! 6, bs ! 7]"

text \<open>
  The password bytes as section 4.3 of the specification writes them, to be compared with
  what \<open>calculatePassword\<close> computes.
\<close>

definition spec_password :: "byte list \<Rightarrow> byte list" where
  "spec_password uid =
     [uid ! 1 XOR uid ! 3 XOR 0xAA, uid ! 2 XOR uid ! 4 XOR 0x55,
      uid ! 3 XOR uid ! 5 XOR 0xAA, uid ! 4 XOR uid ! 6 XOR 0x55]"

text \<open>
  The line of the page listing for page \<open>k\<close> of a buffer, and the line of an all-zero
  page, as the output format writes them.
\<close>

definition page_line :: "byte list \<Rightarrow> nat \<Rightarrow> string" where
  "page_line bs k =
     ''Page '' @ FormatInt (int k) @ '': '' @
     Join (map hex_upper [bs ! (4 * k), bs ! (4 * k + 1), bs ! (4 * k + 2), bs ! (4 * k + 3)]) '' ''"

definition zero_line :: "nat \<Rightarrow> string" where
  "zero_line k = ''Page '' @ FormatInt (int k) @ '': 00 00 00 00''"

text \<open>The lines of a text: the pieces between its newline characters.\<close>

fun lines_of :: "string \<Rightarrow> string list" where
  "lines_of [] = [[]]"
| "lines_of (c # s) =
     (if c = CHR 0x0A then [] # lines_of s
      else (case lines_of s of l # ls \<Rightarrow> (c # l) # ls | [] \<Rightarrow> [[c]]))"

text \<open>Line \<open>k\<close> of the text a computation returns, or its panic.\<close>

definition line_of_result :: "panic + string \<Rightarrow> nat \<Rightarrow> panic + string" where
  "line_of_result res k = (case res of Inl e \<Rightarrow> Inl e | Inr r \<Rightarrow> Inr (lines_of r ! k))"

text \<open>
  A choice for the run-time's growth of a full slice that allocates exactly the length
  asked for, the least the language allows.
\<close>

definition growslice_exact :: "nat \<Rightarrow> nat \<Rightarrow> nat" where
  "growslice_exact oldCap newLen = newLen"

text \<open>
  The page lines before the two trailer pages are overwritten: one line for each group of
  four bytes of the padded buffer, at most 135 of them, then all-zero lines up to 135.
\<close>

definition pages_before :: "slice \<Rightarrow> string list" where
  "pages_before p =
     map (page_line (elems p)) [0..<min (len p div 4) 135] @
     map zero_line [min (len p div 4) 135..<135]"

text \<open>The line of page 133: the password of the UID read from the buffer.\<close>

definition password_line :: "slice \<Rightarrow> string" where
  "password_line p =
     ''Page 133: '' @ Join (map hex_upper (spec_password (uid_of (backing p)))) '' ''"

section \<open>Bytes, hexadecimal digits and the library functions\<close>

lemma unat_byte_less: "unat (b::byte) < 256"
  using unsigned_less [of b, where ?'a = nat] by simp

lemma byte_of_char_of_byte [simp]: "byte_of_char (char_of_byte b) = b"
  using unat_byte_less [of b] by (simp add: byte_of_char_def char_of_byte_def of_char_of)

lemma length_string_of_bytes [simp]: "length (string_of_bytes bs) = length bs"
  by (simp add: string_of_bytes_def)

lemma index_str_bytes: "i < length bs \<Longrightarrow> index_str (string_of_bytes bs) i = Inr (bs ! i)"
  by (simp add: index_str_def string_of_bytes_def)

lemma nat_lt_16_cases:
  "n < 16 \<Longrightarrow> n \<in> {0, 1, 2, 3, 4, 5, 6, 7, 8, 9, 10, 11, 12, 13, 14, 15 :: nat}"
  by simp arith

lemma upper_hextable: "n < 16 \<Longrightarrow> upper_char (hextable ! n) = ''0123456789ABCDEF'' ! n"
  by (drule nat_lt_16_cases) (auto simp: upper_char_def hextable_def char_of_def bit_Suc_0_iff)

lemma fromHex_upper: "n < 16 \<Longrightarrow> fromHexChar (''0123456789ABCDEF'' ! n) = Some (of_nat n)"
  by (drule nat_lt_16_cases) (auto simp: fromHexChar_def)

lemma fromHex_lower: "n < 16 \<Longrightarrow> fromHexChar (''0123456789abcdef'' ! n) = Some (of_nat n)"
  by (drule nat_lt_16_cases) (auto simp: fromHexChar_def)

lemma unat_drop_bit4: "unat (drop_bit 4 (b::byte)) = unat b div 16"
  by (simp add: unat_drop_bit_eq drop_bit_eq_div unat_div)

lemma unat_and15: "unat ((b::byte) AND 0x0f) = unat b mod 16"
proof -
  have "(b AND 0x0f) = take_bit 4 b" by (simp add: take_bit_eq_mask mask_eq_exp_minus_1)
  then show ?thesis by (simp add: unsigned_take_bit_eq take_bit_eq_mod unat_mod)
qed

lemma Encode_byte: "EncodeToString [b] = hex_lower b"
  by (simp add: EncodeToString_def hex_lower_def hex_pair_def unat_drop_bit4 unat_and15 hextable_def)

lemma ToUpper_hex_lower: "ToUpper (hex_lower b) = hex_upper b"
  using unat_byte_less [of b] upper_hextable [of "unat b div 16"] upper_hextable [of "unat b mod 16"]
  by (simp add: ToUpper_def hex_lower_def hex_upper_def hex_pair_def hextable_def)

lemma nibbles_word: "push_bit 4 (drop_bit 4 (b::byte)) OR take_bit 4 b = b"
  by (rule bit_word_eqI) (auto simp: bit_or_iff bit_push_bit_iff bit_drop_bit_eq bit_take_bit_iff)

lemma nibbles_byte: "push_bit 4 (of_nat (unat (b::byte) div 16)) OR of_nat (unat b mod 16) = b"
proof -
  have "of_nat (unat b div 16) = (of_nat (unat (drop_bit 4 b)) :: byte)"
    by (simp only: unat_drop_bit4)
  then have hi: "(of_nat (unat b div 16) :: byte) = drop_bit 4 b"
    by simp
  have "unat (take_bit 4 b) = unat b mod 16"
    by (simp add: unsigned_take_bit_eq take_bit_eq_mod unat_mod)
  then have "of_nat (unat b mod 16) = (of_nat (unat (take_bit 4 b)) :: byte)"
    by simp
  then have lo: "(of_nat (unat b mod 16) :: byte) = take_bit 4 b"
    by simp
  show ?thesis unfolding hi lo by (rule nibbles_word)
qed

lemma Decode_hex_pair:
  assumes "\<And>n. n < 16 \<Longrightarrow> fromHexChar (digits ! n) = Some (of_nat n)"
  shows "DecodeString (concat (map (hex_pair digits) bs)) = (bs, None)"
proof (induction bs)
  case Nil
  show ?case by simp
next
  case (Cons b bs)
  have hi: "fromHexChar (digits ! (unat b div 16)) = Some (of_nat (unat b div 16))"
    using unat_byte_less [of b] by (intro assms) simp
  have lo: "fromHexChar (digits ! (unat b mod 16)) = Some (of_nat (unat b mod 16))"
    by (intro assms) simp
  show ?case using Cons.IH by (simp add: hex_pair_def hi lo nibbles_byte)
qed

lemma replace_space: "replace_nonempty '' '' 0 [] s = filter (\<lambda>c. c \<noteq> CHR '' '') s"
  by (induction s) auto

lemma ReplaceAll_space: "ReplaceAll s '' '' [] = filter (\<lambda>c. c \<noteq> CHR '' '') s"
  by (simp add: ReplaceAll_def replace_space)

lemma filter_Join:
  assumes "\<forall>x \<in> set xs. \<forall>c \<in> set x. P c" and "\<forall>c \<in> set sep. \<not> P c"
  shows "filter P (Join xs sep) = concat xs"
  using assms
proof (induction xs sep rule: Join.induct)
  case (1 sep)
  show ?case by simp
next
  case (2 x sep)
  then show ?case by (simp add: filter_id_conv)
next
  case (3 x y xs sep)
  have x: "filter P x = x" using 3(2) by (simp add: filter_id_conv)
  have sep: "filter P sep = []" using 3(3) by (simp add: filter_empty_conv)
  have "filter P (Join (y # xs) sep) = concat (y # xs)"
    using 3(2,3) by (intro 3(1)) auto
  then show ?case by (simp add: x sep)
qed

lemma upper_digit_not_space: "n < 16 \<Longrightarrow> ''0123456789ABCDEF'' ! n \<noteq> CHR '' ''"
  by (drule nat_lt_16_cases) auto

lemma lower_digit_not_space: "n < 16 \<Longrightarrow> ''0123456789abcdef'' ! n \<noteq> CHR '' ''"
  by (drule nat_lt_16_cases) auto

lemma byte_div16_less: "unat (b::byte) div 16 < 16"
  using unat_byte_less [of b] by simp

lemma hex_upper_no_space: "c \<in> set (hex_upper b) \<Longrightarrow> c \<noteq> CHR '' ''"
  using upper_digit_not_space [OF byte_div16_less [of b]]
    upper_digit_not_space [of "unat b mod 16"]
  by (auto simp: hex_upper_def hex_pair_def)

lemma hex_lower_no_space: "c \<in> set (hex_lower b) \<Longrightarrow> c \<noteq> CHR '' ''"
  using lower_digit_not_space [OF byte_div16_less [of b]]
    lower_digit_not_space [of "unat b mod 16"]
  by (auto simp: hex_lower_def hex_pair_def)

lemma Decode_upper_line:
  "DecodeString (ReplaceAll (Join (map hex_upper bs) '' '') '' '' []) = (bs, None)"
proof -
  have "filter (\<lambda>c. c \<noteq> CHR '' '') (Join (map hex_upper bs) '' '') = concat (map hex_upper bs)"
    by (rule filter_Join) (auto dest: hex_upper_no_space)
  moreover have "DecodeString (concat (map hex_upper bs)) = (bs, None)"
    using Decode_hex_pair [of "''0123456789ABCDEF''" bs] fromHex_upper
    by (simp add: hex_upper_def [abs_def])
  ultimately show ?thesis by (simp add: ReplaceAll_space)
qed

lemma Decode_lower_line:
  "DecodeString (ReplaceAll (Join (map hex_lower bs) '' '') '' '' []) = (bs, None)"
proof -
  have "filter (\<lambda>c. c \<noteq> CHR '' '') (Join (map hex_lower bs) '' '') = concat (map hex_lower bs)"
    by (rule filter_Join) (auto dest: hex_lower_no_space)
  moreover have "DecodeString (concat (map hex_lower bs)) = (bs, None)"
    using Decode_hex_pair [of "''0123456789abcdef''" bs] fromHex_lower
    by (simp add: hex_lower_def [abs_def])
  ultimately show ?thesis by (simp add: ReplaceAll_space)
qed

section \<open>extractUid and calculatePassword\<close>

lemma bindP_Inr [simp]: "bindP (Inr x) f = f x"
  by (simp add: bindP_def)

lemma bindP_Inl [simp]: "bindP (Inl e) f = Inl e"
  by (simp add: bindP_def)

lemma take3_nth: "3 \<le> length xs \<Longrightarrow> take 3 xs = [xs ! 0, xs ! 1, xs ! 2]"
  by (auto simp: list_eq_iff_nth_eq less_Suc_eq eval_nat_numeral)

lemma take4_drop4_nth:
  "8 \<le> length xs \<Longrightarrow> take 4 (drop 4 xs) = [xs ! 4, xs ! 5, xs ! 6, xs ! 7]"
  by (auto simp: list_eq_iff_nth_eq less_Suc_eq eval_nat_numeral)

lemma extractUid_cap:
  assumes "8 \<le> cap s"
  shows "extractUid s = Inr (Join (map hex_upper (uid_of (backing s))) '' '')"
proof -
  have l: "8 \<le> length (backing s)" using assms by (simp add: cap_def backing_def)
  have a: "slice_expr s 0 3 = Inr [backing s ! 0, backing s ! 1, backing s ! 2]"
    using assms l by (simp add: slice_expr_def take3_nth)
  have b: "slice_expr s 4 8 = Inr [backing s ! 4, backing s ! 5, backing s ! 6, backing s ! 7]"
    using assms l by (simp add: slice_expr_def take4_drop4_nth)
  show ?thesis
    by (simp add: extractUid_def a b uid_of_def Encode_byte ToUpper_hex_lower)
qed

lemma extractUid_small:
  assumes "cap s < 8"
  shows "extractUid s = Inl SliceBoundsOutOfRange"
  using assms by (auto simp: extractUid_def slice_expr_def bindP_def split: sum.splits)

lemma calculatePassword_bytes:
  assumes "length uid = 7"
  shows "calculatePassword (string_of_bytes uid) = Inr (Join (map hex_lower (spec_password uid)) '' '')"
  using assms by (simp add: calculatePassword_def index_str_bytes spec_password_def Encode_byte)

lemma calculatePassword_short:
  assumes "length rawUid < 7"
  shows "calculatePassword rawUid = Inl IndexOutOfRange"
  using assms by (auto simp: calculatePassword_def index_str_def bindP_def split: sum.splits)

lemma xor_cancel_right: "(a::byte) XOR c = b XOR c \<longleftrightarrow> a = b"
proof
  assume "a XOR c = b XOR c"
  then have "(a XOR c) XOR c = (b XOR c) XOR c" by simp
  then show "a = b" by (simp add: xor.assoc)
qed simp

lemma xor_cancel_mid: "(c::byte) XOR a XOR d = c XOR b XOR d \<longleftrightarrow> a = b"
  by (metis xor.commute xor_cancel_right)

lemma spec_password_changes:
  assumes "length uid = 7" "1 \<le> i" "i \<le> 6" "b \<noteq> uid ! i"
  shows "\<exists>k<4. spec_password (uid[i := b]) ! k \<noteq> spec_password uid ! k"
proof -
  from assms(2,3) consider "i = 1" | "i = 2" | "i = 3" | "i = 4" | "i = 5" | "i = 6" by linarith
  then show ?thesis
  proof cases
    case 1
    then have "spec_password (uid[i := b]) ! 0 \<noteq> spec_password uid ! 0"
      using assms by (simp add: spec_password_def xor_cancel_right)
    then show ?thesis by (intro exI [of _ 0]) simp
  next
    case 2
    then have "spec_password (uid[i := b]) ! 1 \<noteq> spec_password uid ! 1"
      using assms by (simp add: spec_password_def xor_cancel_right)
    then show ?thesis by (intro exI [of _ 1]) simp
  next
    case 3
    then have "spec_password (uid[i := b]) ! 0 \<noteq> spec_password uid ! 0"
      using assms by (simp add: spec_password_def xor_cancel_mid)
    then show ?thesis by (intro exI [of _ 0]) simp
  next
    case 4
    then have "spec_password (uid[i := b]) ! 1 \<noteq> spec_password uid ! 1"
      using assms by (simp add: spec_password_def xor_cancel_mid)
    then show ?thesis by (intro exI [of _ 1]) simp
  next
    case 5
    then have "spec_password (uid[i := b]) ! 2 \<noteq> spec_password uid ! 2"
      using assms by (simp add: spec_password_def xor_cancel_mid)
    then show ?thesis by (intro exI [of _ 2]) simp
  next
    case 6
    then have "spec_password (uid[i := b]) ! 3 \<noteq> spec_password uid ! 3"
      using assms by (simp add: spec_password_def xor_cancel_mid)
    then show ?thesis by (intro exI [of _ 3]) simp
  qed
qed

section \<open>The password and the UID\<close>

text \<open>
  Claim C2. For every 7-byte UID, \<open>calculatePassword\<close> returns without a panic, and what it
  returns is the four bytes \<open>uid[1] XOR uid[3] XOR 0xAA\<close>, \<open>uid[2] XOR uid[4] XOR 0x55\<close>,
  \<open>uid[3] XOR uid[5] XOR 0xAA\<close>, \<open>uid[4] XOR uid[6] XOR 0x55\<close> (indices from 0), each
  written as a pair of hexadecimal digits, the pairs separated by single spaces; decoding
  the text gives exactly these four bytes back.
\<close>

theorem calculatePassword_formula:
  assumes "length uid = 7"
  shows "\<exists>pw. calculatePassword (string_of_bytes uid) = Inr pw
           \<and> pw = Join (map hex_lower (spec_password uid)) '' ''
           \<and> DecodeString (ReplaceAll pw '' '' []) = (spec_password uid, None)
           \<and> length (spec_password uid) = 4"
  using assms by (simp add: calculatePassword_bytes Decode_lower_line) (simp add: spec_password_def)

theorem calculatePassword_formula_witness:
  "length [0x04, 0x5A, 0x3B, 0x92, 0x68, 0x6F, 0x80 :: byte] = 7
   \<and> calculatePassword (string_of_bytes [0x04, 0x5A, 0x3B, 0x92, 0x68, 0x6F, 0x80]) = Inr ''62 06 57 bd''"
  using calculatePassword_formula [of "[0x04, 0x5A, 0x3B, 0x92, 0x68, 0x6F, 0x80]"]
  by (simp add: spec_password_def hex_lower_def hex_pair_def)

text \<open>
  Claim C3. For every input of at least 8 bytes, \<open>extractUid\<close> returns the bytes at the
  indices 0, 1, 2, 4, 5, 6, 7 of the input (the byte at index 3 is left out), each as two
  upper-case hexadecimal digits, joined by single spaces; the text decodes to these seven
  bytes.
\<close>

theorem extractUid_drops_index_3:
  assumes "8 \<le> len fileContent"
  shows "extractUid fileContent = Inr (Join (map hex_upper (uid_of (elems fileContent))) '' '')
       \<and> DecodeString (ReplaceAll (Join (map hex_upper (uid_of (elems fileContent))) '' '') '' '' [])
           = (uid_of (elems fileContent), None)
       \<and> length (uid_of (elems fileContent)) = 7"
proof -
  have "uid_of (backing fileContent) = uid_of (elems fileContent)"
    using assms by (auto simp: uid_of_def backing_def len_def nth_append)
  moreover have "8 \<le> cap fileContent" using assms by (simp add: cap_def len_def)
  ultimately show ?thesis
    by (simp add: extractUid_cap Decode_upper_line) (simp add: uid_of_def)
qed

theorem extractUid_drops_index_3_witness:
  "8 \<le> len \<lparr>elems = [0x04, 0x5A, 0x3B, 0xED, 0x92, 0x68, 0x6F, 0x80, 0x15], spare = []\<rparr>
   \<and> extractUid \<lparr>elems = [0x04, 0x5A, 0x3B, 0xED, 0x92, 0x68, 0x6F, 0x80, 0x15], spare = []\<rparr>
       = Inr ''04 5A 3B 92 68 6F 80''"
  using extractUid_drops_index_3
    [of "\<lparr>elems = [0x04, 0x5A, 0x3B, 0xED, 0x92, 0x68, 0x6F, 0x80, 0x15], spare = []\<rparr>"]
  by (simp add: len_def uid_of_def hex_upper_def hex_pair_def)

text \<open>
  Claim C9. \<open>calculatePassword\<close> is a function of the UID: equal UIDs give equal results.
  For a 7-byte UID, changing the single byte at an index from 1 to 6 changes the result,
  and at least one of the four password bytes differs.
\<close>

theorem calculatePassword_deterministic_sensitive:
  assumes "length uid = 7" "1 \<le> i" "i \<le> 6" "b \<noteq> uid ! i"
  shows "(\<forall>uid'. uid' = uid \<longrightarrow>
            calculatePassword (string_of_bytes uid') = calculatePassword (string_of_bytes uid))
       \<and> (\<exists>pw pw'. calculatePassword (string_of_bytes uid) = Inr pw
             \<and> calculatePassword (string_of_bytes (uid[i := b])) = Inr pw'
             \<and> pw' \<noteq> pw
             \<and> (\<exists>k<4. fst (DecodeString (ReplaceAll pw' '' '' [])) ! k
                        \<noteq> fst (DecodeString (ReplaceAll pw '' '' [])) ! k))"
proof -
  let ?pw = "Join (map hex_lower (spec_password uid)) '' ''"
  let ?pw' = "Join (map hex_lower (spec_password (uid[i := b]))) '' ''"
  have 1: "calculatePassword (string_of_bytes uid) = Inr ?pw"
    using assms(1) by (rule calculatePassword_bytes)
  have 2: "calculatePassword (string_of_bytes (uid[i := b])) = Inr ?pw'"
    using assms(1) by (intro calculatePassword_bytes) simp
  obtain k where k: "k < 4" "spec_password (uid[i := b]) ! k \<noteq> spec_password uid ! k"
    using spec_password_changes [OF assms] by blast
  have 3: "fst (DecodeString (ReplaceAll ?pw' '' '' [])) ! k \<noteq> fst (DecodeString (ReplaceAll ?pw '' '' [])) ! k"
    using k by (simp add: Decode_lower_line)
  then have 4: "?pw' \<noteq> ?pw" by auto
  show ?thesis using 1 2 3 4 k(1) by blast
qed

theorem calculatePassword_deterministic_sensitive_witness:
  "length [0x04, 0x5A, 0x3B, 0x92, 0x68, 0x6F, 0x80 :: byte] = 7 \<and> (1::nat) \<le> 3 \<and> (3::nat) \<le> 6
   \<and> (0x93 :: byte) \<noteq> [0x04, 0x5A, 0x3B, 0x92, 0x68, 0x6F, 0x80] ! 3
   \<and> calculatePassword (string_of_bytes ([0x04, 0x5A, 0x3B, 0x92, 0x68, 0x6F, 0x80][3 := 0x93]))
       \<noteq> calculatePassword (string_of_bytes [0x04, 0x5A, 0x3B, 0x92, 0x68, 0x6F, 0x80])"
  using calculatePassword_deterministic_sensitive
    [of "[0x04, 0x5A, 0x3B, 0x92, 0x68, 0x6F, 0x80]" 3 "0x93"]
  by auto

section \<open>The header of the document\<close>

lemma FormatInt_135: "FormatInt (int Ntag215PageQuantity) = ''135''"
  by (simp add: FormatInt_def Ntag215PageQuantity_def format_nat.simps digit_char_def)

text \<open>
  Claim C7. The document is the fixed header lines, with the UID on the line \<open>UID:\<close>,
  followed by the page listing: whatever the UID and the pages are, the other lines are
  the same constants, among them device type NTAG215, ATQA \<open>44 00\<close>, SAK \<open>00\<close>, a signature
  of 32 zero bytes, the Mifare version \<open>00 04 04 02 01 00 11 03\<close>, three zero counters
  with zero tearing flags and \<open>Pages total: 135\<close>.
\<close>

theorem createNfcFileContent_constant_header:
  "createNfcFileContent uid pages =
     Join [''Filetype: Flipper NFC device'',
           ''Version: 2'',
           ''# Nfc device type can be UID, Mifare Ultralight, Bank card'',
           ''Device type: NTAG215'',
           ''# UID, ATQA and SAK are common for all formats'',
           ''UID: '' @ uid,
           ''ATQA: 44 00'',
           ''SAK: 00'',
           ''# Mifare Ultralight specific data'',
           ''Signature: '' @ Join (replicate 32 ''00'') '' '',
           ''Mifare version: 00 04 04 02 01 00 11 03'',
           ''Counter 0: 0'', ''Tearing 0: 00'',
           ''Counter 1: 0'', ''Tearing 1: 00'',
           ''Counter 2: 0'', ''Tearing 2: 00'',
           ''Pages total: 135'',
           pages] ''\<newline>''"
  by (simp add: createNfcFileContent_def FormatInt_135 eval_nat_numeral)

section \<open>The loops of convertBinDataToNfcPages\<close>

lemma len_append_byte [simp]: "len (append_byte g s b) = len s + 1"
  by (simp add: append_byte_def len_def split: list.splits)

lemma elems_append_byte [simp]: "elems (append_byte g s b) = elems s @ [b]"
  by (simp add: append_byte_def split: list.splits)

lemma pad_count_step:
  "n mod 4 \<noteq> 0 \<Longrightarrow> Suc ((4 - Suc n mod 4) mod 4) = (4 - n mod 4) mod 4"
  by (simp add: mod_Suc) arith

lemma pad_loop_elems:
  "elems (pad_loop g s) = elems s @ replicate ((4 - len s mod 4) mod 4) 0"
proof (induction g s rule: pad_loop.induct)
  case (1 g s)
  show ?case
  proof (cases "len s mod 4 = 0")
    case True
    then show ?thesis by (simp add: pad_loop.simps [of g s])
  next
    case False
    have "elems (pad_loop g s) = elems (pad_loop g (append_byte g s 0))"
      using False by (simp add: pad_loop.simps [of g s])
    also have "\<dots> = (elems s @ [0]) @ replicate ((4 - Suc (len s) mod 4) mod 4) 0"
      using 1 False by simp
    also have "\<dots> = elems s @ replicate (Suc ((4 - Suc (len s) mod 4) mod 4)) 0"
      by simp
    finally show ?thesis using pad_count_step [OF False] by simp
  qed
qed

lemma pad_loop_aligned: "len s mod 4 = 0 \<Longrightarrow> pad_loop g s = s"
  by (simp add: pad_loop.simps [of g s])

lemma len_pad_loop: "len (pad_loop g s) = len s + (4 - len s mod 4) mod 4"
  using pad_loop_elems [of g s] by (simp add: len_def)

lemma len_pad_loop_mod: "len (pad_loop g s) mod 4 = 0"
proof (induction g s rule: pad_loop.induct)
  case (1 g s)
  then show ?case by (cases "len s mod 4 = 0") (simp_all add: pad_loop.simps [of g s])
qed

lemma len_le_cap: "len s \<le> cap s"
  by (simp add: len_def cap_def)

lemma slice_expr_one:
  assumes "j < cap s"
  shows "slice_expr s j (j + 1) = Inr [backing s ! j]"
proof -
  have "j < length (backing s)" using assms by (simp add: cap_def backing_def)
  then have "take 1 (drop j (backing s)) = [backing s ! j]"
    by (simp add: take_Suc_conv_app_nth)
  then show ?thesis using assms by (simp add: slice_expr_def)
qed

lemma backing_nth_elems: "j < len s \<Longrightarrow> backing s ! j = elems s ! j"
  by (simp add: backing_def len_def nth_append)

lemma page_bytes_from:
  assumes "i + 4 \<le> len s" "j \<le> 4"
  shows "page_bytes s i j page =
           Inr (page @ concat (map (\<lambda>t. '' '' @ hex_upper (elems s ! (i + t))) [j..<4]))"
  using assms(2)
proof (induction "4 - j" arbitrary: j page)
  case 0
  then have "j = 4" by simp
  then show ?case by (subst page_bytes.simps) simp
next
  case (Suc d)
  then have j: "j < 4" by simp
  then have "i + j < cap s" using assms(1) len_le_cap [of s] by simp
  then have sl: "slice_expr s (i + j) (Suc (i + j)) = Inr [elems s ! (i + j)]"
    using slice_expr_one [of "i + j" s] backing_nth_elems [of "i + j" s] assms(1) j by simp
  have "page_bytes s i (j + 1) (page @ '' '' @ hex_upper (elems s ! (i + j))) =
          Inr ((page @ '' '' @ hex_upper (elems s ! (i + j)))
               @ concat (map (\<lambda>t. '' '' @ hex_upper (elems s ! (i + t))) [j + 1..<4]))"
    using Suc(2) j by (intro Suc(1)) simp_all
  moreover have "[j..<4] = j # [j + 1..<4]"
    using j by (simp add: upt_conv_Cons)
  ultimately show ?case
    using j by (subst page_bytes.simps) (simp add: sl Encode_byte ToUpper_hex_lower)
qed

lemma upt_0_4: "[0..<4] = [0, 1, 2, 3]"
  by (simp add: upt_rec)

lemma page_bytes_page_line:
  assumes "4 * k + 4 \<le> len s"
  shows "page_bytes s (4 * k) 0 (''Page '' @ FormatInt (int k) @ '':'') = Inr (page_line (elems s) k)"
  using page_bytes_from [OF assms, of 0] by (simp add: page_line_def upt_0_4)

lemma page_loop_groups:
  assumes "len s = 4 * q" "k \<le> min q 135" "k < 135 \<or> q \<le> k"
  shows "page_loop s (4 * k) pc k = Inr (pc @ map (page_line (elems s)) [k..<min q 135], min q 135)"
  using assms(2,3)
proof (induction "min q 135 - k" arbitrary: k pc)
  case 0
  then have k: "min q 135 = k" by simp
  with 0 have "q \<le> k" by auto
  then have "len s \<le> 4 * k" using assms(1) by simp
  then have "page_loop s (4 * k) pc k = Inr (pc, k)"
    by (subst page_loop.simps) simp
  then show ?case unfolding k by simp
next
  case (Suc d)
  let ?m = "min q 135"
  from Suc(2) have km: "k < ?m" by linarith
  then have lt: "4 * k < len s" and k4: "4 * k + 4 \<le> len s" and k135: "k < 135"
    using assms(1) by simp_all
  have page: "page_bytes s (4 * k) 0 (''Page '' @ FormatInt (int k) @ '':'') = Inr (page_line (elems s) k)"
    using k4 by (rule page_bytes_page_line)
  show ?case
  proof (cases "k + 1 \<ge> Ntag215PageQuantity")
    case True
    then have k134: "k = 134" using k135 by (simp add: Ntag215PageQuantity_def)
    then have m: "?m = 135" using km by simp
    have "page_loop s (4 * k) pc k = Inr (pc @ [page_line (elems s) k], k + 1)"
      using lt True page by (subst page_loop.simps) simp
    then show ?thesis unfolding m using k134 by simp
  next
    case False
    then have k1: "k + 1 < 135" by (simp add: Ntag215PageQuantity_def)
    have "page_loop s (4 * (k + 1)) (pc @ [page_line (elems s) k]) (k + 1) =
            Inr ((pc @ [page_line (elems s) k]) @ map (page_line (elems s)) [k + 1..<?m], ?m)"
      using Suc(2) km k1 by (intro Suc(1)) simp_all
    then have "page_loop s (4 * k + 4) (pc @ [page_line (elems s) k]) (Suc k) =
            Inr ((pc @ [page_line (elems s) k]) @ map (page_line (elems s)) [k + 1..<?m], ?m)"
      by (simp add: add.commute)
    moreover have "[k..<?m] = k # [k + 1..<?m]"
      using km by (simp add: upt_conv_Cons)
    moreover have "page_loop s (4 * k) pc k =
            page_loop s (4 * k + 4) (pc @ [page_line (elems s) k]) (Suc k)"
      using lt False page by (subst page_loop.simps) (simp add: add.commute)
    ultimately show ?thesis by simp
  qed
qed

lemma page_loop_result:
  assumes "len s mod 4 = 0"
  shows "page_loop s 0 [] 0 =
           Inr (map (page_line (elems s)) [0..<min (len s div 4) 135], min (len s div 4) 135)"
proof -
  from assms obtain q where q: "len s = 4 * q" by (auto simp: mod_eq_0_iff_dvd)
  then have "len s div 4 = q" by simp
  then show ?thesis using page_loop_groups [OF q, of 0 "[]"] by simp
qed

lemma zero_loop_result:
  assumes "k \<le> 135"
  shows "zero_loop pc k = (pc @ map zero_line [k..<135], 135)"
  using assms
proof (induction "135 - k" arbitrary: k pc)
  case 0
  then show ?case by (subst zero_loop.simps) (simp add: Ntag215PageQuantity_def)
next
  case (Suc d)
  then have k: "k < 135" by simp
  have "zero_loop (pc @ [zero_line k]) (k + 1) = ((pc @ [zero_line k]) @ map zero_line [k + 1..<135], 135)"
    using Suc(2) k by (intro Suc(1)) simp_all
  moreover have "[k..<135] = k # [k + 1..<135]"
    using k by (simp add: upt_conv_Cons)
  ultimately show ?case
    using k by (subst zero_loop.simps) (simp add: Ntag215PageQuantity_def zero_line_def)
qed

section \<open>The result of convertBinDataToNfcPages\<close>

lemma ToUpper_Join: "ToUpper (Join xs sep) = Join (map ToUpper xs) (ToUpper sep)"
  by (induction xs sep rule: Join.induct) (simp_all add: ToUpper_def)

lemma ToUpper_space: "ToUpper '' '' = '' ''"
  by (simp add: ToUpper_def upper_char_def)

lemma ToUpper_lower_line:
  "ToUpper (Join (map hex_lower bs) '' '') = Join (map hex_upper bs) '' ''"
  by (simp add: ToUpper_Join ToUpper_space ToUpper_hex_lower comp_def)

lemma length_pages_before [simp]: "length (pages_before p) = 135"
  by (simp add: pages_before_def)

lemma length_uid_of [simp]: "length (uid_of bs) = 7"
  by (simp add: uid_of_def)

lemma convertBin_small:
  assumes "cap (pad_loop g s) < 8"
  shows "convertBinDataToNfcPages g s = Inl SliceBoundsOutOfRange"
proof -
  let ?p = "pad_loop g s"
  have loop: "page_loop ?p 0 [] 0 =
      Inr (map (page_line (elems ?p)) [0..<min (len ?p div 4) 135], min (len ?p div 4) 135)"
    by (rule page_loop_result) (rule len_pad_loop_mod)
  show ?thesis
    unfolding convertBinDataToNfcPages_def Let_def loop
    by (simp add: zero_loop_result extractUid_small [OF assms])
qed

lemma convertBin_large:
  assumes "8 \<le> cap (pad_loop g s)"
  shows "convertBinDataToNfcPages g s =
           Inr (Join ((pages_before (pad_loop g s))
                        [133 := password_line (pad_loop g s), 134 := ''Page 134: 80 80 00 00''])
                  ''\<newline>'')"
proof -
  let ?p = "pad_loop g s"
  have loop: "page_loop ?p 0 [] 0 =
      Inr (map (page_line (elems ?p)) [0..<min (len ?p div 4) 135], min (len ?p div 4) 135)"
    by (rule page_loop_result) (rule len_pad_loop_mod)
  have zero: "zero_loop (map (page_line (elems ?p)) [0..<min (len ?p div 4) 135])
                (min (len ?p div 4) 135) = (pages_before ?p, 135)"
    by (simp add: zero_loop_result pages_before_def)
  have uid: "extractUid ?p = Inr (Join (map hex_upper (uid_of (backing ?p))) '' '')"
    using assms by (rule extractUid_cap)
  have pw: "calculatePassword (string_of_bytes (uid_of (backing ?p))) =
              Inr (Join (map hex_lower (spec_password (uid_of (backing ?p)))) '' '')"
    by (rule calculatePassword_bytes) simp
  show ?thesis
    unfolding convertBinDataToNfcPages_def Let_def loop
    by (simp add: zero uid Decode_upper_line pw ToUpper_lower_line set_index_def password_line_def)
qed


lemma convertBin_Inr:
  assumes "convertBinDataToNfcPages g s = Inr r"
  shows "8 \<le> cap (pad_loop g s)"
    and "r = Join ((pages_before (pad_loop g s))
                     [133 := password_line (pad_loop g s), 134 := ''Page 134: 80 80 00 00''])
               ''\<newline>''"
proof -
  show c: "8 \<le> cap (pad_loop g s)"
    using assms convertBin_small [of g s] by (cases "cap (pad_loop g s) < 8") auto
  show "r = Join ((pages_before (pad_loop g s))
                     [133 := password_line (pad_loop g s), 134 := ''Page 134: 80 80 00 00''])
               ''\<newline>''"
    using assms convertBin_large [OF c] by simp
qed

lemma len_le_pad: "len s \<le> len (pad_loop g s)"
  by (simp add: len_pad_loop)

lemma pad_loop_nth: "j < len s \<Longrightarrow> elems (pad_loop g s) ! j = elems s ! j"
  by (simp add: pad_loop_elems len_def nth_append)

lemma uid_of_pad:
  assumes "8 \<le> len s"
  shows "uid_of (backing (pad_loop g s)) = uid_of (elems s)"
proof -
  have "j < 8 \<Longrightarrow> backing (pad_loop g s) ! j = elems s ! j" for j
    using assms len_le_pad [of s g]
    by (simp add: backing_nth_elems pad_loop_nth)
  then show ?thesis by (simp add: uid_of_def)
qed

section \<open>Lines of a text\<close>

lemma lines_of_nonempty [simp]: "lines_of s \<noteq> []"
  by (induction s) (auto split: list.splits)

lemma lines_of_append:
  "CHR 0x0A \<notin> set x \<Longrightarrow> lines_of (x @ s) = (x @ hd (lines_of s)) # tl (lines_of s)"
  by (induction x) (auto split: list.splits)

lemma lines_of_Join:
  assumes "xs \<noteq> []" "\<forall>x \<in> set xs. CHR 0x0A \<notin> set x"
  shows "lines_of (Join xs ''\<newline>'') = xs"
  using assms
proof (induction xs rule: list_nonempty_induct)
  case (single x)
  then show ?case using lines_of_append [of x "[]"] by simp
next
  case (cons x xs)
  then obtain y ys where xs: "xs = y # ys" by (cases xs) auto
  have "lines_of (Join (x # xs) ''\<newline>'') = lines_of (x @ ''\<newline>'' @ Join xs ''\<newline>'')"
    by (simp add: xs)
  also have "\<dots> = x # lines_of (Join xs ''\<newline>'')"
    using cons.prems by (simp add: lines_of_append)
  finally show ?case using cons by simp
qed

lemma digit_char_mem: "n < 10 \<Longrightarrow> digit_char n \<in> set ''0123456789''"
  unfolding digit_char_def by (rule nth_mem) simp

lemma format_nat_digits: "c \<in> set (format_nat n) \<Longrightarrow> c \<in> set ''0123456789''"
proof (induction n rule: format_nat.induct)
  case (1 n)
  show ?case
  proof (cases "n < 10")
    case True
    then show ?thesis using "1.prems" digit_char_mem [of n] by (simp add: format_nat.simps [of n])
  next
    case False
    then show ?thesis
      using 1 digit_char_mem [of "n mod 10"] by (auto simp: format_nat.simps [of n])
  qed
qed

lemma FormatInt_no_newline: "CHR 0x0A \<notin> set (FormatInt (int k))"
  using format_nat_digits [of "CHR 0x0A" k] by (auto simp: FormatInt_def)

lemma hex_upper_digits: "c \<in> set (hex_upper b) \<Longrightarrow> c \<in> set ''0123456789ABCDEF''"
proof -
  have "unat b div 16 < length ''0123456789ABCDEF''"
    using byte_div16_less [of b] by simp
  then have hi: "''0123456789ABCDEF'' ! (unat b div 16) \<in> set ''0123456789ABCDEF''"
    by (rule nth_mem)
  have "unat b mod 16 < length ''0123456789ABCDEF''"
    by simp
  then have "''0123456789ABCDEF'' ! (unat b mod 16) \<in> set ''0123456789ABCDEF''"
    by (rule nth_mem)
  with hi show "c \<in> set (hex_upper b) \<Longrightarrow> c \<in> set ''0123456789ABCDEF''"
    by (auto simp: hex_upper_def hex_pair_def)
qed

lemma hex_upper_no_newline: "CHR 0x0A \<notin> set (hex_upper b)"
  using hex_upper_digits [of "CHR 0x0A" b] by auto

lemma page_line_no_newline: "CHR 0x0A \<notin> set (page_line bs k)"
  by (simp add: page_line_def FormatInt_no_newline hex_upper_no_newline)

lemma zero_line_no_newline: "CHR 0x0A \<notin> set (zero_line k)"
  by (simp add: zero_line_def FormatInt_no_newline)

lemma password_line_no_newline: "CHR 0x0A \<notin> set (password_line p)"
  by (simp add: password_line_def spec_password_def hex_upper_no_newline)

lemma pages_before_no_newline: "x \<in> set (pages_before p) \<Longrightarrow> CHR 0x0A \<notin> set x"
  by (auto simp: pages_before_def page_line_no_newline zero_line_no_newline)

lemma lines_of_result:
  "lines_of (Join ((pages_before p)[133 := password_line p, 134 := ''Page 134: 80 80 00 00''])
       ''\<newline>'')
     = (pages_before p)[133 := password_line p, 134 := ''Page 134: 80 80 00 00'']"
proof (rule lines_of_Join)
  let ?xs = "(pages_before p)[133 := password_line p, 134 := ''Page 134: 80 80 00 00'']"
  have "length ?xs = 135" by simp
  then show "?xs \<noteq> []" by (metis length_0_conv zero_neq_numeral)
  have "set ?xs \<subseteq> insert ''Page 134: 80 80 00 00'' (insert (password_line p) (set (pages_before p)))"
    by (meson set_update_subset_insert subset_trans insert_mono)
  then show "\<forall>x \<in> set ?xs. CHR 0x0A \<notin> set x"
    using pages_before_no_newline [of _ p] password_line_no_newline [of p] by auto
qed

lemma pages_before_nth:
  assumes "k < 135"
  shows "pages_before p ! k = (if k < len p div 4 then page_line (elems p) k else zero_line k)"
proof (cases "k < min (len p div 4) 135")
  case True
  then show ?thesis by (simp add: pages_before_def nth_append)
next
  case False
  then have "k - min (len p div 4) 135 < 135 - min (len p div 4) 135" using assms by simp
  then show ?thesis using False assms by (simp add: pages_before_def nth_append)
qed

lemma mult4_ge5: "n mod 4 = 0 \<Longrightarrow> 5 \<le> n \<Longrightarrow> 8 \<le> (n::nat)"
  by (auto simp: mod_eq_0_iff_dvd)

lemma convertBin_long:
  assumes "5 \<le> len s"
  shows "8 \<le> len (pad_loop g s)" and "\<exists>r. convertBinDataToNfcPages g s = Inr r"
proof -
  show l: "8 \<le> len (pad_loop g s)"
    using len_pad_loop_mod [of g s] len_le_pad [of s g] assms by (intro mult4_ge5) simp_all
  then have "8 \<le> cap (pad_loop g s)" using len_le_cap [of "pad_loop g s"] by linarith
  then show "\<exists>r. convertBinDataToNfcPages g s = Inr r" using convertBin_large by blast
qed

section \<open>The page listing\<close>

lemma FormatInt_133: "FormatInt 133 = ''133''"
  by (simp add: FormatInt_def format_nat.simps digit_char_def)

lemma FormatInt_134: "FormatInt 134 = ''134''"
  by (simp add: FormatInt_def format_nat.simps digit_char_def)

text \<open>
  Claim C4. When \<open>convertBinDataToNfcPages\<close> returns, line 133 of its result is
  \<open>Page 133:\<close> followed by the four password bytes of the UID, in upper-case hexadecimal
  separated by single spaces, and line 134 is \<open>Page 134: 80 80 00 00\<close>, whatever the
  input holds at those offsets. The UID is the one \<open>extractUid\<close> reads from the padded
  buffer; for an input of at least 8 bytes these are the input bytes 0, 1, 2, 4, 5, 6, 7.
\<close>

theorem trailer_pages_overwritten:
  assumes "convertBinDataToNfcPages growslice fileContent = Inr r"
  shows "8 \<le> cap (pad_loop growslice fileContent)
       \<and> extractUid (pad_loop growslice fileContent) =
           Inr (Join (map hex_upper (uid_of (backing (pad_loop growslice fileContent)))) '' '')
       \<and> lines_of r ! 133 =
           ''Page 133: '' @
           Join (map hex_upper (spec_password (uid_of (backing (pad_loop growslice fileContent))))) '' ''
       \<and> lines_of r ! 134 = ''Page 134: 80 80 00 00''
       \<and> (8 \<le> len fileContent \<longrightarrow>
            uid_of (backing (pad_loop growslice fileContent)) = uid_of (elems fileContent))"
proof -
  let ?p = "pad_loop growslice fileContent"
  note r = convertBin_Inr [OF assms]
  have "lines_of r = (pages_before ?p)[133 := password_line ?p, 134 := ''Page 134: 80 80 00 00'']"
    unfolding r(2) by (rule lines_of_result)
  then have "lines_of r ! 133 = password_line ?p" "lines_of r ! 134 = ''Page 134: 80 80 00 00''"
    by simp_all
  then show ?thesis
    using r(1) extractUid_cap [OF r(1)] uid_of_pad [of fileContent growslice]
    by (simp add: password_line_def)
qed

theorem trailer_pages_overwritten_witness:
  "line_of_result (convertBinDataToNfcPages growslice_exact
      \<lparr>elems = replicate 540 0xFF, spare = []\<rparr>) 133 = Inr ''Page 133: AA 55 AA 55''
   \<and> line_of_result (convertBinDataToNfcPages growslice_exact
      \<lparr>elems = replicate 540 0xFF, spare = []\<rparr>) 134 = Inr ''Page 134: 80 80 00 00''"
proof -
  let ?s = "\<lparr>elems = replicate 540 0xFF, spare = []\<rparr>"
  have l: "8 \<le> len ?s" by (simp add: len_def)
  then have "8 \<le> cap (pad_loop growslice_exact ?s)"
    using len_le_pad [of ?s growslice_exact] len_le_cap [of "pad_loop growslice_exact ?s"] by linarith
  then obtain r where r: "convertBinDataToNfcPages growslice_exact ?s = Inr r"
    using convertBin_large by blast
  show ?thesis
    using trailer_pages_overwritten [OF r] l
    by (simp add: r line_of_result_def uid_of_def spec_password_def hex_upper_def hex_pair_def)
qed

lemma page_prefix_before:
  assumes "k < 135"
  shows "take (length (''Page '' @ FormatInt (int k) @ '':'')) (pages_before p ! k)
           = ''Page '' @ FormatInt (int k) @ '':''"
  using assms by (simp add: pages_before_nth page_line_def zero_line_def)

lemma pages_before_full:
  assumes "540 \<le> len p"
  shows "pages_before p = map (page_line (elems p)) [0..<135]"
proof -
  have "135 \<le> len p div 4" using assms by simp
  then have "min (len p div 4) 135 = 135" by simp
  then show ?thesis by (simp add: pages_before_def)
qed

lemma page_line_cong:
  assumes "\<And>j. j < 4 * k + 4 \<Longrightarrow> bs ! j = bs' ! j"
  shows "page_line bs k = page_line bs' k"
  by (simp add: page_line_def assms)

lemma convertBin_truncates:
  assumes "540 \<le> len s"
  shows "convertBinDataToNfcPages g s =
           convertBinDataToNfcPages g \<lparr>elems = take 540 (elems s), spare = []\<rparr>"
proof -
  let ?t = "\<lparr>elems = take 540 (elems s), spare = []\<rparr>"
  let ?p = "pad_loop g s"
  have lt: "len ?t = 540" using assms by (simp add: len_def)
  then have pt: "pad_loop g ?t = ?t" by (intro pad_loop_aligned) simp
  have lp: "540 \<le> len ?p" using assms len_le_pad [of s g] by linarith
  have caps: "8 \<le> cap ?p" "8 \<le> cap ?t"
    using lp len_le_cap [of ?p] lt len_le_cap [of ?t] by linarith+
  have "page_line (elems ?p) k = page_line (elems ?t) k" if "k < 135" for k
  proof (rule page_line_cong)
    fix j assume "j < 4 * k + 4"
    then have "j < 540" using that by simp
    then show "elems ?p ! j = elems ?t ! j"
      using assms by (simp add: pad_loop_nth)
  qed
  then have "map (page_line (elems ?p)) [0..<135] = map (page_line (elems ?t)) [0..<135]"
    by simp
  then have pages: "pages_before ?p = pages_before ?t"
    using lp lt by (simp add: pages_before_full)
  have "uid_of (backing ?p) = uid_of (elems s)"
    using assms by (intro uid_of_pad) simp
  moreover have "uid_of (backing ?t) = uid_of (elems s)"
    by (simp add: uid_of_def backing_def)
  ultimately have pw: "password_line ?p = password_line ?t"
    by (simp add: password_line_def)
  show ?thesis
    using convertBin_large [OF caps(1)] convertBin_large [of g ?t] caps(2) pages pw
    by (simp add: pt)
qed

text \<open>
  Claim C5. When \<open>convertBinDataToNfcPages\<close> returns, its result has exactly 135 lines,
  line \<open>k\<close> starting with \<open>Page k:\<close>. The buffer is the input followed by the zero bytes
  that pad it to a multiple of 4; for \<open>k < 133\<close>, line \<open>k\<close> renders the \<open>k\<close>-th group of four
  bytes of that buffer when there is one, and is the all-zero page otherwise. An input
  of 540 bytes or more gives the same result as its first 540 bytes.
\<close>

theorem exactly_135_pages:
  assumes "convertBinDataToNfcPages growslice fileContent = Inr r"
  shows "length (lines_of r) = 135
       \<and> (\<forall>k<135. take (length (''Page '' @ FormatInt (int k) @ '':'')) (lines_of r ! k)
                     = ''Page '' @ FormatInt (int k) @ '':'')
       \<and> elems (pad_loop growslice fileContent)
           = elems fileContent @ replicate ((4 - len fileContent mod 4) mod 4) 0
       \<and> (\<forall>k<133. lines_of r ! k =
             (if k < len (pad_loop growslice fileContent) div 4
              then page_line (elems (pad_loop growslice fileContent)) k else zero_line k))
       \<and> (540 \<le> len fileContent \<longrightarrow>
            convertBinDataToNfcPages growslice fileContent =
            convertBinDataToNfcPages growslice \<lparr>elems = take 540 (elems fileContent), spare = []\<rparr>)"
proof -
  let ?p = "pad_loop growslice fileContent"
  note r = convertBin_Inr [OF assms]
  have lines: "lines_of r = (pages_before ?p)[133 := password_line ?p, 134 := ''Page 134: 80 80 00 00'']"
    unfolding r(2) by (rule lines_of_result)
  have 1: "length (lines_of r) = 135" by (simp add: lines)
  have low: "lines_of r ! k = pages_before ?p ! k" if "k < 133" for k
    using that by (simp add: lines)
  have 2: "take (length (''Page '' @ FormatInt (int k) @ '':'')) (lines_of r ! k)
             = ''Page '' @ FormatInt (int k) @ '':''" if k135: "k < 135" for k
  proof -
    consider "k < 133" | "k = 133" | "k = 134" using k135 by linarith
    then show ?thesis
    proof cases
      case 1
      then show ?thesis using page_prefix_before [of k ?p] by (simp add: low)
    next
      case 2
      then show ?thesis by (simp add: lines password_line_def FormatInt_133)
    next
      case 3
      then show ?thesis by (simp add: lines FormatInt_134)
    qed
  qed
  have 4: "lines_of r ! k = (if k < len ?p div 4 then page_line (elems ?p) k else zero_line k)"
    if "k < 133" for k
    using that by (simp add: low pages_before_nth)
  show ?thesis
    using 1 2 4 pad_loop_elems [of growslice fileContent] convertBin_truncates [of fileContent growslice]
    by blast
qed

lemma FormatInt_small:
  "FormatInt 0 = ''0''" "FormatInt 1 = ''1''" "FormatInt 2 = ''2''" "FormatInt 3 = ''3''"
  "FormatInt 7 = ''7''"
  by (simp_all add: FormatInt_def format_nat.simps digit_char_def)

theorem exactly_135_pages_witness:
  "line_of_result (convertBinDataToNfcPages growslice_exact
      \<lparr>elems = [1, 2, 3, 4, 5, 6, 7, 8, 9], spare = []\<rparr>) 2 = Inr ''Page 2: 09 00 00 00''
   \<and> line_of_result (convertBinDataToNfcPages growslice_exact
      \<lparr>elems = [1, 2, 3, 4, 5, 6, 7, 8, 9], spare = []\<rparr>) 3 = Inr ''Page 3: 00 00 00 00''
   \<and> 540 \<le> len \<lparr>elems = replicate 572 0x2C, spare = []\<rparr>
   \<and> convertBinDataToNfcPages growslice_exact \<lparr>elems = replicate 572 0x2C, spare = []\<rparr>
       = convertBinDataToNfcPages growslice_exact \<lparr>elems = replicate 540 0x2C, spare = []\<rparr>"
proof -
  let ?s = "\<lparr>elems = [1, 2, 3, 4, 5, 6, 7, 8, 9], spare = []\<rparr>"
  have l: "len ?s = 9" by (simp add: len_def)
  then have "8 \<le> cap (pad_loop growslice_exact ?s)"
    using len_le_pad [of ?s growslice_exact] len_le_cap [of "pad_loop growslice_exact ?s"] by linarith
  then obtain r where r: "convertBinDataToNfcPages growslice_exact ?s = Inr r"
    using convertBin_large by blast
  have p: "len (pad_loop growslice_exact ?s) = 12"
    by (simp add: len_pad_loop l)
  note T = exactly_135_pages [OF r]
  from T have e: "elems (pad_loop growslice_exact ?s)
      = elems ?s @ replicate ((4 - len ?s mod 4) mod 4) 0"
    by (elim conjE)
  from T have a: "\<forall>k<133. lines_of r ! k =
      (if k < len (pad_loop growslice_exact ?s) div 4
       then page_line (elems (pad_loop growslice_exact ?s)) k else zero_line k)"
    by (elim conjE)
  have e': "elems (pad_loop growslice_exact ?s) = [1, 2, 3, 4, 5, 6, 7, 8, 9, 0, 0, 0]"
  proof -
    have n: "(4 - (9::nat) mod 4) mod 4 = 3" by simp
    have z: "replicate 3 (0::byte) = [0, 0, 0]" by (simp add: numeral_3_eq_3)
    show ?thesis unfolding e l n z by simp
  qed
  have "lines_of r ! 2 = page_line [1, 2, 3, 4, 5, 6, 7, 8, 9, 0, 0, 0] 2"
    using a [rule_format, of 2] by (simp add: p e')
  moreover have "lines_of r ! 3 = zero_line 3"
    using a [rule_format, of 3] by (simp add: p)
  ultimately have short: "line_of_result (convertBinDataToNfcPages growslice_exact ?s) 2
        = Inr ''Page 2: 09 00 00 00''"
      "line_of_result (convertBinDataToNfcPages growslice_exact ?s) 3
        = Inr ''Page 3: 00 00 00 00''"
    by (simp_all add: r line_of_result_def page_line_def zero_line_def FormatInt_small
        hex_upper_def hex_pair_def)
  let ?t = "\<lparr>elems = replicate 572 (0x2C::byte), spare = []\<rparr>"
  have lt: "540 \<le> len ?t" by (simp add: len_def)
  then obtain r' where r': "convertBinDataToNfcPages growslice_exact ?t = Inr r'"
    using convertBin_long(2) [of ?t growslice_exact] by auto
  have "convertBinDataToNfcPages growslice_exact ?t =
          convertBinDataToNfcPages growslice_exact \<lparr>elems = take 540 (elems ?t), spare = []\<rparr>"
    using exactly_135_pages [OF r'] lt by (elim conjE) simp
  then have long: "convertBinDataToNfcPages growslice_exact ?t
       = convertBinDataToNfcPages growslice_exact \<lparr>elems = replicate 540 0x2C, spare = []\<rparr>"
    by simp
  show ?thesis using short lt long by simp
qed

text \<open>
  Claim C6. For an input of exactly 540 bytes nothing is padded and nothing is cut: the
  padding loop leaves the slice as it is, the page loop collects all 135 groups and the
  zero-page loop adds none. The call returns 135 lines, and for \<open>0 \<le> i \<le> 132\<close> line \<open>i\<close> is
  \<open>Page i:\<close> followed by the input bytes \<open>4i\<close> to \<open>4i+3\<close> in two-digit upper-case
  hexadecimal, separated by single spaces.
\<close>

theorem aligned_540_verbatim:
  assumes "len fileContent = 540"
  shows "pad_loop growslice fileContent = fileContent
       \<and> page_loop fileContent 0 [] 0 = Inr (map (page_line (elems fileContent)) [0..<135], 135)
       \<and> zero_loop (map (page_line (elems fileContent)) [0..<135]) 135
           = (map (page_line (elems fileContent)) [0..<135], 135)
       \<and> (\<exists>r. convertBinDataToNfcPages growslice fileContent = Inr r
              \<and> length (lines_of r) = 135
              \<and> (\<forall>i\<le>132. lines_of r ! i = page_line (elems fileContent) i))"
proof -
  have m: "len fileContent mod 4 = 0" by (simp add: assms)
  have pad: "pad_loop growslice fileContent = fileContent"
    using m by (rule pad_loop_aligned)
  have loop: "page_loop fileContent 0 [] 0 = Inr (map (page_line (elems fileContent)) [0..<135], 135)"
    using page_loop_result [OF m] by (simp add: assms)
  have zero: "zero_loop (map (page_line (elems fileContent)) [0..<135]) 135
           = (map (page_line (elems fileContent)) [0..<135], 135)"
    using zero_loop_result [of 135] by simp
  have c: "8 \<le> cap (pad_loop growslice fileContent)"
    using len_le_cap [of fileContent] by (simp add: pad assms)
  let ?r = "Join ((pages_before fileContent)
                    [133 := password_line fileContent, 134 := ''Page 134: 80 80 00 00''])
              ''\<newline>''"
  have r: "convertBinDataToNfcPages growslice fileContent = Inr ?r"
    using convertBin_large [OF c] by (simp add: pad)
  have lines: "lines_of ?r = (pages_before fileContent)
                    [133 := password_line fileContent, 134 := ''Page 134: 80 80 00 00'']"
    by (rule lines_of_result)
  have "lines_of ?r ! i = page_line (elems fileContent) i" if "i \<le> 132" for i
    using that by (simp add: lines pages_before_nth assms)
  moreover have "length (lines_of ?r) = 135" by (simp add: lines)
  ultimately show ?thesis using pad loop zero r by blast
qed

theorem aligned_540_verbatim_witness:
  "len \<lparr>elems = replicate 540 0x1B, spare = []\<rparr> = 540
   \<and> line_of_result (convertBinDataToNfcPages growslice_exact
        \<lparr>elems = replicate 540 0x1B, spare = []\<rparr>) 7 = Inr ''Page 7: 1B 1B 1B 1B''"
proof -
  let ?s = "\<lparr>elems = replicate 540 0x1B, spare = []\<rparr>"
  have l: "len ?s = 540" by (simp add: len_def)
  show ?thesis
    using aligned_540_verbatim [OF l, of growslice_exact] l
    by (auto simp: line_of_result_def page_line_def FormatInt_small hex_upper_def hex_pair_def)
qed

section \<open>Slice accesses out of range\<close>






lemma cap_append_byte: "cap s \<le> cap (append_byte g s b)"
  by (simp add: append_byte_def cap_def len_def split: list.splits)

lemma cap_pad_loop: "cap s \<le> cap (pad_loop g s)"
proof (induction g s rule: pad_loop.induct)
  case (1 g s)
  show ?case
  proof (cases "len s mod 4 = 0")
    case True
    then show ?thesis by (simp add: pad_loop.simps [of g s])
  next
    case False
    then have "cap (append_byte g s 0) \<le> cap (pad_loop g s)"
      using 1 by (simp add: pad_loop.simps [of g s])
    then show ?thesis using cap_append_byte [of s g 0] by linarith
  qed
qed

text \<open>
  With a run-time that never allocates fewer than 8 bytes for a grown slice, an input
  without spare capacity whose length is not a multiple of 4 is grown by the padding loop
  to a capacity of at least 8, and is converted whatever its length.
\<close>

lemma unaligned_input_grown:
  assumes "spare s = []" "len s mod 4 \<noteq> 0" "\<And>c n. 8 \<le> g c n"
  shows "\<exists>r. convertBinDataToNfcPages g s = Inr r"
proof -
  have "8 \<le> cap (append_byte g s 0)"
    using assms(1) assms(3) [of "cap s" "len s + 1"]
    by (simp add: append_byte_def cap_def len_def)
  moreover have "pad_loop g s = pad_loop g (append_byte g s 0)"
    using assms(2) by (simp add: pad_loop.simps [of g s])
  ultimately have "8 \<le> cap (pad_loop g s)"
    using cap_pad_loop [of "append_byte g s 0" g] by simp
  then show ?thesis using convertBin_large by blast
qed

section \<open>The empty input\<close>


text \<open>
  What the empty input gives when the slice has capacity: with at least 8 spare bytes, all
  zero, the slice expressions of \<open>extractUid\<close> are within the capacity and read zeros, so
  the UID is all zero, the pages are the zero pages, and page 133 holds the password of
  the all-zero UID.
\<close>

lemma empty_input_with_capacity:
  assumes "elems s = []" "spare s = replicate n 0" "8 \<le> n"
  shows "extractUid s = Inr ''00 00 00 00 00 00 00''"
    and "\<exists>r. convertBinDataToNfcPages g s = Inr r \<and> length (lines_of r) = 135
           \<and> (\<forall>k<133. lines_of r ! k = zero_line k)
           \<and> lines_of r ! 133 = ''Page 133: AA 55 AA 55''
           \<and> lines_of r ! 134 = ''Page 134: 80 80 00 00''"
proof -
  have l: "len s = 0" using assms(1) by (simp add: len_def)
  have c: "8 \<le> cap s" using assms by (simp add: cap_def)
  have u: "uid_of (backing s) = [0, 0, 0, 0, 0, 0, 0]"
    using assms by (simp add: uid_of_def backing_def)
  show "extractUid s = Inr ''00 00 00 00 00 00 00''"
    using extractUid_cap [OF c] by (simp add: u hex_upper_def hex_pair_def)
  have p: "pad_loop g s = s" by (intro pad_loop_aligned) (simp add: l)
  let ?r = "Join ((pages_before s)[133 := password_line s, 134 := ''Page 134: 80 80 00 00''])
              ''\<newline>''"
  have r: "convertBinDataToNfcPages g s = Inr ?r"
    using convertBin_large [of g s] c by (simp add: p)
  have lines: "lines_of ?r = (pages_before s)[133 := password_line s, 134 := ''Page 134: 80 80 00 00'']"
    by (rule lines_of_result)
  have "lines_of ?r ! k = zero_line k" if "k < 133" for k
    using that by (simp add: lines pages_before_nth l)
  moreover have "password_line s = ''Page 133: AA 55 AA 55''"
    by (simp add: password_line_def u spec_password_def hex_upper_def hex_pair_def)
  then have "lines_of ?r ! 133 = ''Page 133: AA 55 AA 55''"
    unfolding lines by simp
  moreover have "lines_of ?r ! 134 = ''Page 134: 80 80 00 00''" "length (lines_of ?r) = 135"
    by (simp_all add: lines)
  ultimately show "\<exists>r. convertBinDataToNfcPages g s = Inr r \<and> length (lines_of r) = 135
           \<and> (\<forall>k<133. lines_of r ! k = zero_line k)
           \<and> lines_of r ! 133 = ''Page 133: AA 55 AA 55''
           \<and> lines_of r ! 134 = ''Page 134: 80 80 00 00''"
    using r by blast
qed

section \<open>The loop over the files\<close>

lemma main_loop_append:
  "main_loop g i out w (xs @ ys) =
     (case main_loop g i out w xs of Inl e \<Rightarrow> Inl e | Inr w' \<Rightarrow> main_loop g i out w' ys)"
proof (induction xs arbitrary: w)
  case Nil
  show ?case by simp
next
  case (Cons x xs)
  show ?case
    by (simp add: Cons.IH Let_def split: prod.splits option.splits sum.splits)
qed

lemma main_loop_load_fails:
  assumes "readable w file = None"
  shows "main_loop g i out w (file # rest) =
           Inl (LogPanic ''error when loading file, check filename'',
                w\<lparr>log_out := log_out w @ [''error when loading file, check filename'']\<rparr>)"
  using assms by (simp add: loadBinFile_def)

lemma main_loop_write_fails:
  assumes "readable w file = Some fileContent"
    and "extractUid fileContent = Inr uid"
    and "convertBinDataToNfcPages g fileContent = Inr pages"
    and "\<not> writable w (ReplaceAll (ReplaceAll file i out) ''.bin'' ''.nfc'')"
  shows "main_loop g i out w (file # rest) =
           main_loop g i out
             (w\<lparr>std_out := std_out w @ [''Proccess file:  '' @ file],
                log_out := log_out w @ [''Error when save NfcFile  error when write nfc file'']\<rparr>)
             rest"
  using assms by (simp add: loadBinFile_def saveNfcFile_def Let_def)

lemma main_loop_write_succeeds:
  assumes "readable w file = Some fileContent"
    and "extractUid fileContent = Inr uid"
    and "convertBinDataToNfcPages g fileContent = Inr pages"
    and "writable w (ReplaceAll (ReplaceAll file i out) ''.bin'' ''.nfc'')"
  shows "main_loop g i out w (file # rest) =
           main_loop g i out
             (w\<lparr>std_out := std_out w @ [''Proccess file:  '' @ file],
                written := written w @ [(ReplaceAll (ReplaceAll file i out) ''.bin'' ''.nfc'',
                                         createNfcFileContent uid pages)]\<rparr>)
             rest"
  using assms by (simp add: loadBinFile_def saveNfcFile_def Let_def)

text \<open>
  A file that arrives as an empty slice with at least 8 spare zero bytes is converted and
  written: the document has the all-zero UID, zero pages, the password \<open>AA 55 AA 55\<close> on
  page 133 and \<open>80 80 00 00\<close> on page 134.
\<close>

lemma main_loop_empty_with_capacity:
  assumes "readable w file = Some s" "elems s = []" "spare s = replicate n 0" "8 \<le> n"
    and "writable w (ReplaceAll (ReplaceAll file i out) ''.bin'' ''.nfc'')"
  shows "\<exists>pages. main_loop g i out w (file # rest) =
           main_loop g i out
             (w\<lparr>std_out := std_out w @ [''Proccess file:  '' @ file],
                written := written w @ [(ReplaceAll (ReplaceAll file i out) ''.bin'' ''.nfc'',
                   createNfcFileContent ''00 00 00 00 00 00 00'' pages)]\<rparr>)
             rest
         \<and> length (lines_of pages) = 135
         \<and> (\<forall>k<133. lines_of pages ! k = zero_line k)
         \<and> lines_of pages ! 133 = ''Page 133: AA 55 AA 55''
         \<and> lines_of pages ! 134 = ''Page 134: 80 80 00 00''"
proof -
  obtain pages where pages: "convertBinDataToNfcPages g s = Inr pages"
      "length (lines_of pages) = 135" "\<forall>k<133. lines_of pages ! k = zero_line k"
      "lines_of pages ! 133 = ''Page 133: AA 55 AA 55''"
      "lines_of pages ! 134 = ''Page 134: 80 80 00 00''"
    using empty_input_with_capacity(2) [OF assms(2,3,4), of g] by blast
  have "main_loop g i out w (file # rest) =
           main_loop g i out
             (w\<lparr>std_out := std_out w @ [''Proccess file:  '' @ file],
                written := written w @ [(ReplaceAll (ReplaceAll file i out) ''.bin'' ''.nfc'',
                   createNfcFileContent ''00 00 00 00 00 00 00'' pages)]\<rparr>)
             rest"
    using assms(1) empty_input_with_capacity(1) [OF assms(2,3,4)] pages(1) assms(5)
    by (rule main_loop_write_succeeds)
  then show ?thesis using pages(2-5) by blast
qed

text \<open>
  In the loop of \<open>main\<close>, a file whose content arrives as the empty slice without
  capacity ends the run with the panic of \<open>extractUid\<close>, before anything is printed or
  written for it.
\<close>

lemma main_loop_empty_without_capacity:
  assumes "readable w file = Some \<lparr>elems = [], spare = []\<rparr>"
  shows "main_loop g i out w (file # rest) = Inl (SliceBoundsOutOfRange, w)"
proof -
  have "extractUid \<lparr>elems = [], spare = []\<rparr> = Inl SliceBoundsOutOfRange"
    by (intro extractUid_small) (simp add: cap_def)
  then show ?thesis using assms by (simp add: loadBinFile_def)
qed

text \<open>
  Claim C8. When a file cannot be loaded, the run ends there with the panic of
  \<open>log.Panicln\<close>: whatever files remain in the list, the result is this panic and the
  world is as the files before left it, but for the logged error. When a converted file
  cannot be written, the error is logged and the loop goes on with the remaining files
  in a world where nothing else has changed.
\<close>

theorem load_failure_aborts_write_failure_continues:
  "(main_loop growslice inputDir outputDir w before = Inr w' \<and> readable w' file = None \<longrightarrow>
      main_loop growslice inputDir outputDir w (before @ file # rest) =
        Inl (LogPanic ''error when loading file, check filename'',
             w'\<lparr>log_out := log_out w' @ [''error when loading file, check filename'']\<rparr>))
   \<and> (readable w file = Some fileContent
        \<and> extractUid fileContent = Inr uid
        \<and> convertBinDataToNfcPages growslice fileContent = Inr pages
        \<and> \<not> writable w (ReplaceAll (ReplaceAll file inputDir outputDir) ''.bin'' ''.nfc'') \<longrightarrow>
        main_loop growslice inputDir outputDir w (file # rest) =
          main_loop growslice inputDir outputDir
            (w\<lparr>std_out := std_out w @ [''Proccess file:  '' @ file],
               log_out := log_out w @ [''Error when save NfcFile  error when write nfc file'']\<rparr>)
            rest)"
  using main_loop_load_fails [of "w'" "file" growslice inputDir outputDir rest]
    main_loop_write_fails [of w "file" fileContent uid growslice pages inputDir outputDir rest]
  by (simp add: main_loop_append)

theorem load_failure_aborts_write_failure_continues_witness:
  "main_loop growslice_exact ''in'' ''out''
     \<lparr>readable = (\<lambda>f. if f = ''in/a.bin'' then Some \<lparr>elems = replicate 8 0, spare = []\<rparr> else None),
      writable = (\<lambda>f. False), written = [], log_out = [], std_out = []\<rparr>
     [''in/a.bin'', ''in/b.bin'', ''in/c.bin'']
   = Inl (LogPanic ''error when loading file, check filename'',
          \<lparr>readable = (\<lambda>f. if f = ''in/a.bin'' then Some \<lparr>elems = replicate 8 0, spare = []\<rparr> else None),
           writable = (\<lambda>f. False), written = [],
           log_out = [''Error when save NfcFile  error when write nfc file'',
                      ''error when loading file, check filename''],
           std_out = [''Proccess file:  in/a.bin'']\<rparr>)"
proof -
  let ?c = "\<lparr>elems = replicate 8 (0::byte), spare = []\<rparr>"
  let ?w = "\<lparr>readable = (\<lambda>f. if f = ''in/a.bin'' then Some ?c else None),
             writable = (\<lambda>f. False), written = [], log_out = [], std_out = []\<rparr>"
  let ?w1 = "?w\<lparr>std_out := std_out ?w @ [''Proccess file:  '' @ ''in/a.bin''],
               log_out := log_out ?w @ [''Error when save NfcFile  error when write nfc file'']\<rparr>"
  have l: "8 \<le> len ?c" by (simp add: len_def)
  then have "8 \<le> cap ?c" using len_le_cap [of ?c] by linarith
  then obtain uid where uid: "extractUid ?c = Inr uid" using extractUid_cap by blast
  obtain pages where pages: "convertBinDataToNfcPages growslice_exact ?c = Inr pages"
    using convertBin_long(2) [of ?c growslice_exact] l by auto
  have 1: "main_loop growslice_exact ''in'' ''out'' ?w [''in/a.bin''] = Inr ?w1"
    using load_failure_aborts_write_failure_continues
      [where w = ?w and growslice = growslice_exact and inputDir = "''in''" and outputDir = "''out''"
         and fileContent = ?c and uid = uid and pages = pages and rest = "[]"
         and ?file = "''in/a.bin''"]
      uid pages
    by simp
  have "main_loop growslice_exact ''in'' ''out'' ?w ([''in/a.bin''] @ ''in/b.bin'' # [''in/c.bin'']) =
          Inl (LogPanic ''error when loading file, check filename'',
               ?w1\<lparr>log_out := log_out ?w1 @ [''error when loading file, check filename'']\<rparr>)"
    using load_failure_aborts_write_failure_continues
      [where w = ?w and growslice = growslice_exact and inputDir = "''in''" and outputDir = "''out''"
         and before = "[''in/a.bin'']" and w' = ?w1 and rest = "[''in/c.bin'']"
         and ?file = "''in/b.bin''"]
      1
    by simp
  then show ?thesis by simp
qed

end
